theory Spec2Isabelle
  imports Complex_Main
begin

section \<open>The audio engine (class AudioEngine of script.js)\<close>

text \<open>
  JavaScript numbers that hold times, gains and frequencies are modelled as reals (no
  rounding); octaves, indices and touch identifiers are integers. The audio nodes that
  \<open>createOscillator\<close> and \<open>createGain\<close> return are heap objects: the engine keeps them in
  two stores (lists, a node's address being its index) and the \<open>oscillators\<close> object maps a
  key string to the addresses of the pair it registered. A node stays in the store after
  its key is deleted, as the fading source stays in the audio graph.

  \<open>ctx.currentTime\<close> does not change during one event handler; every operation takes it
  as the argument \<open>now\<close>. The events of a parameter are kept in the order of the calls;
  the audio clock never runs backwards, so this is the order of their times.

  \<open>this.oscillators[note]\<close> is the lookup of an own property: the page passes keys that
  end in the digits of an octave, and no name that an object inherits is such a key.
\<close>

datatype automation =
    SetValueAtTime real real
  | SetCurrentValueAtTime real
  | LinearRampToValueAtTime real real
  | ExponentialRampToValueAtTime real real

text \<open>
  \<open>SetCurrentValueAtTime t\<close> is the call \<open>p.setValueAtTime(p.value, t)\<close>: the value is the
  one the platform reports for the parameter at the moment of the call.
\<close>

fun event_time :: "automation \<Rightarrow> real" where
  "event_time (SetValueAtTime v t) = t"
| "event_time (SetCurrentValueAtTime t) = t"
| "event_time (LinearRampToValueAtTime v t) = t"
| "event_time (ExponentialRampToValueAtTime v t) = t"

record audio_param =
  param_value :: real
  param_events :: "automation list"

definition schedule :: "automation \<Rightarrow> audio_param \<Rightarrow> audio_param" where
  "schedule a p = p\<lparr>param_events := param_events p @ [a]\<rparr>"

definition cancelScheduledValues :: "real \<Rightarrow> audio_param \<Rightarrow> audio_param" where
  "cancelScheduledValues cancelTime p =
     p\<lparr>param_events := filter (\<lambda>a. event_time a < cancelTime) (param_events p)\<rparr>"

record oscillator_node =
  osc_type :: string
  osc_frequency :: audio_param
  osc_output :: "nat option"
  osc_started :: bool
  osc_stop_at :: "real option"

record gain_node =
  gain_param :: audio_param
  gain_to_master :: bool

record voice =
  osc :: nat
  gain :: nat

datatype context_state = Suspended | Running | Closed

record AudioEngine =
  ctx_state :: context_state
  masterGain :: audio_param
  oscillators :: "string \<rightharpoonup> voice"
  osc_nodes :: "oscillator_node list"
  gain_nodes :: "gain_node list"

text \<open>
  The constructor. The state of a new AudioContext is the platform's choice (suspended
  until a user gesture, or running), so it is an argument.
\<close>

definition new_AudioEngine :: "context_state \<Rightarrow> AudioEngine" where
  "new_AudioEngine st =
     \<lparr>ctx_state = st,
      masterGain = \<lparr>param_value = 0.5, param_events = []\<rparr>,
      oscillators = Map.empty,
      osc_nodes = [],
      gain_nodes = []\<rparr>"

definition setVolume :: "real \<Rightarrow> real \<Rightarrow> AudioEngine \<Rightarrow> AudioEngine" where
  "setVolume now v e = e\<lparr>masterGain := schedule (SetValueAtTime v now) (masterGain e)\<rparr>"

text \<open>What \<open>stopTone\<close> does to the gain parameter and to the source of a registered voice.\<close>

definition release_gain :: "real \<Rightarrow> gain_node \<Rightarrow> gain_node" where
  "release_gain now g =
     g\<lparr>gain_param :=
         schedule (ExponentialRampToValueAtTime 0.001 (now + 0.1))
           (schedule (SetCurrentValueAtTime now)
             (cancelScheduledValues now (gain_param g)))\<rparr>"

definition stop_osc :: "real \<Rightarrow> oscillator_node \<Rightarrow> oscillator_node" where
  "stop_osc t n = n\<lparr>osc_stop_at := Some t\<rparr>"

definition stopTone :: "real \<Rightarrow> string \<Rightarrow> AudioEngine \<Rightarrow> AudioEngine" where
  "stopTone now note e =
     (case oscillators e note of
        None \<Rightarrow> e
      | Some v \<Rightarrow>
          e\<lparr>gain_nodes := (gain_nodes e)[gain v := release_gain now (gain_nodes e ! gain v)],
            osc_nodes := (osc_nodes e)[osc v := stop_osc (now + 0.1) (osc_nodes e ! osc v)],
            oscillators := (oscillators e)(note := None)\<rparr>)"

text \<open>
  The part of \<open>playTone\<close> after its first line: a new source and a new gain node, the
  attack and decay envelope, the connections, \<open>osc.start()\<close> and the registration.
\<close>

definition new_osc :: "real \<Rightarrow> real \<Rightarrow> nat \<Rightarrow> oscillator_node" where
  "new_osc now frequency g =
     \<lparr>osc_type = ''triangle'',
      osc_frequency = schedule (SetValueAtTime frequency now)
                        \<lparr>param_value = 440, param_events = []\<rparr>,
      osc_output = Some g,
      osc_started = True,
      osc_stop_at = None\<rparr>"

definition new_gain :: "real \<Rightarrow> gain_node" where
  "new_gain now =
     \<lparr>gain_param =
        schedule (ExponentialRampToValueAtTime 0.5 (now + 0.5))
          (schedule (LinearRampToValueAtTime 1 (now + 0.02))
            (schedule (SetValueAtTime 0 now) \<lparr>param_value = 1, param_events = []\<rparr>)),
      gain_to_master = True\<rparr>"

definition allocate :: "real \<Rightarrow> string \<Rightarrow> real \<Rightarrow> AudioEngine \<Rightarrow> AudioEngine" where
  "allocate now note frequency e =
     (let o_addr = length (osc_nodes e); g_addr = length (gain_nodes e)
      in e\<lparr>osc_nodes := osc_nodes e @ [new_osc now frequency g_addr],
           gain_nodes := gain_nodes e @ [new_gain now],
           oscillators := (oscillators e)(note \<mapsto> \<lparr>osc = o_addr, gain = g_addr\<rparr>)\<rparr>)"

definition playTone :: "real \<Rightarrow> string \<Rightarrow> real \<Rightarrow> AudioEngine \<Rightarrow> AudioEngine" where
  "playTone now note frequency e =
     allocate now note frequency
       (if oscillators e note \<noteq> None then stopTone now note e else e)"

text \<open>
  \<open>resume\<close>: the promise of \<open>ctx.resume()\<close> is taken to resolve at once, so the context is
  running afterwards.
\<close>

definition resume :: "AudioEngine \<Rightarrow> AudioEngine" where
  "resume e = (if ctx_state e = Suspended then e\<lparr>ctx_state := Running\<rparr> else e)"

text \<open>A call of the engine's interface at a time, and a sequence of calls.\<close>

datatype engine_call =
    PlayTone real string real
  | StopTone real string
  | SetVolume real real
  | Resume

fun call :: "engine_call \<Rightarrow> AudioEngine \<Rightarrow> AudioEngine" where
  "call (PlayTone now note f) e = playTone now note f e"
| "call (StopTone now note) e = stopTone now note e"
| "call (SetVolume now v) e = setVolume now v e"
| "call Resume e = resume e"

fun calls :: "engine_call list \<Rightarrow> AudioEngine \<Rightarrow> AudioEngine" where
  "calls [] e = e"
| "calls (c # cs) e = calls cs (call c e)"

text \<open>
  A source sounds when it has been started and no stop has been scheduled for it.
\<close>

definition sounding :: "AudioEngine \<Rightarrow> nat \<Rightarrow> bool" where
  "sounding e i \<longleftrightarrow>
     i < length (osc_nodes e) \<and> osc_started (osc_nodes e ! i) \<and> osc_stop_at (osc_nodes e ! i) = None"

definition engine_inv :: "AudioEngine \<Rightarrow> bool" where
  "engine_inv e \<longleftrightarrow>
     (\<forall>k v. oscillators e k = Some v \<longrightarrow> sounding e (osc v) \<and> gain v < length (gain_nodes e)) \<and>
     (\<forall>i. sounding e i \<longrightarrow> (\<exists>k v. oscillators e k = Some v \<and> osc v = i)) \<and>
     (\<forall>k k' v v'. oscillators e k = Some v \<and> oscillators e k' = Some v' \<and> osc v = osc v' \<longrightarrow> k = k')"


section \<open>Notes, keys and frequencies (NOTES, KEY_MAP, PianoUI.getFrequency)\<close>

definition NOTES :: "string list" where
  "NOTES = [''C'', ''C#'', ''D'', ''D#'', ''E'', ''F'', ''F#'', ''G'', ''G#'', ''A'', ''A#'', ''B'']"

definition KEY_MAP :: "string \<rightharpoonup> string" where
  "KEY_MAP = map_of
     [(''a'', ''C''), (''w'', ''C#''), (''s'', ''D''), (''e'', ''D#''), (''d'', ''E''), (''f'', ''F''),
      (''t'', ''F#''), (''g'', ''G''), (''y'', ''G#''), (''h'', ''A''), (''u'', ''A#''), (''j'', ''B''),
      (''k'', ''C2'')]"

text \<open>\<open>Array.prototype.indexOf\<close>: the first index of the element, or -1.\<close>

primrec indexOf :: "'a list \<Rightarrow> 'a \<Rightarrow> int" where
  "indexOf [] x = - 1"
| "indexOf (y # ys) x =
     (if y = x then 0 else (let r = indexOf ys x in if r < 0 then - 1 else r + 1))"

text \<open>\<open>Math.pow(2, x)\<close> is the real power \<open>2 powr x\<close>.\<close>

definition getFrequency :: "string \<Rightarrow> int \<Rightarrow> real" where
  "getFrequency note octave =
     (let noteIndex = indexOf NOTES note;
          semitonesFromA4 = (octave - 4) * 12 + (noteIndex - 9)
      in 440 * 2 powr (real_of_int semitonesFromA4 / 12))"

text \<open>
  The pitch-class index as the specification words it: C = 0, C# = 1, ..., A = 9, ..., B = 11.
  It is compared with \<open>indexOf NOTES\<close> below.
\<close>

definition pitchClassIndex :: "string \<Rightarrow> int" where
  "pitchClassIndex n =
     (if n = ''C'' then 0 else if n = ''C#'' then 1 else if n = ''D'' then 2
      else if n = ''D#'' then 3 else if n = ''E'' then 4 else if n = ''F'' then 5
      else if n = ''F#'' then 6 else if n = ''G'' then 7 else if n = ''G#'' then 8
      else if n = ''A'' then 9 else if n = ''A#'' then 10 else 11)"

text \<open>
  The supported identities of the specification: the twelve pitch classes in the octaves
  1 to 7, and the C of the octave above the top one.
\<close>

definition supported :: "string \<Rightarrow> int \<Rightarrow> bool" where
  "supported note octave \<longleftrightarrow>
     (note \<in> set NOTES \<and> 1 \<le> octave \<and> octave \<le> 7) \<or> (note = ''C'' \<and> octave = 8)"

text \<open>
  The decimal text of an integer, as a template literal prints a number:
  \<open>`${note}${octave}`\<close> is \<open>note @ number_string octave\<close>.
\<close>

fun dec :: "nat \<Rightarrow> string" where
  "dec n = (if n < 10 then [char_of (48 + n)] else dec (n div 10) @ [char_of (48 + n mod 10)])"

declare dec.simps [simp del]

definition number_string :: "int \<Rightarrow> string" where
  "number_string i = (if i < 0 then CHR ''-'' # dec (nat (- i)) else dec (nat i))"

definition tone_key :: "string \<Rightarrow> int \<Rightarrow> string" where
  "tone_key note octave = note @ number_string octave"

text \<open>
  \<open>String.prototype.toLowerCase\<close> on the ASCII letters, the ones \<open>KEY_MAP\<close> is written
  in; \<open>toUpperCase\<close> is not called by the source and serves to state what an uppercase
  key is.
\<close>

definition lower_char :: "char \<Rightarrow> char" where
  "lower_char c =
     (if (65::nat) \<le> of_char c \<and> of_char c \<le> (90::nat) then char_of (of_char c + (32::nat)) else c)"

definition upper_char :: "char \<Rightarrow> char" where
  "upper_char c =
     (if (97::nat) \<le> of_char c \<and> of_char c \<le> (122::nat) then char_of (of_char c - (32::nat)) else c)"

definition toLowerCase :: "string \<Rightarrow> string" where
  "toLowerCase s = map lower_char s"

definition toUpperCase :: "string \<Rightarrow> string" where
  "toUpperCase s = map upper_char s"

section \<open>The piano (class PianoUI of script.js)\<close>

text \<open>
  A rendered key element: its \<open>data-note\<close> and \<open>data-octave\<close> attributes (the octave is
  written as a number and read back with \<open>parseInt\<close>, so it is kept as the integer), its
  colour class, whether it carries the class \<open>active\<close>, and its \<open>data-touch-id\<close> when set.
  The children of the piano element are a list; an element is named by its index there.
  The page is taken to hold no element of class \<open>key\<close> outside the piano.
\<close>

record key_element =
  data_note :: string
  data_octave :: int
  black :: bool
  active :: bool
  data_touchId :: "int option"

record PianoUI =
  engine :: AudioEngine
  piano :: "key_element list"
  octave :: int
  baseOctave :: int
  isDragging :: bool
  octave_display :: string

definition render_key :: "int \<Rightarrow> nat \<Rightarrow> key_element" where
  "render_key startOctave i =
     (let noteIndex = i mod 12;
          currentOctave = startOctave + int (i div 12);
          note = NOTES ! noteIndex
      in \<lparr>data_note = note, data_octave = currentOctave, black = (CHR ''#'' \<in> set note),
          active = False, data_touchId = None\<rparr>)"

definition renderPiano :: "PianoUI \<Rightarrow> PianoUI" where
  "renderPiano ui = ui\<lparr>piano := map (render_key (octave ui)) [0..<13]\<rparr>"

definition updateOctaveDisplay :: "PianoUI \<Rightarrow> PianoUI" where
  "updateOctaveDisplay ui = ui\<lparr>octave_display := ''Octave: '' @ number_string (octave ui)\<rparr>"

text \<open>
  \<open>playKey\<close> and \<open>stopKey\<close> take an element or null: \<open>None\<close> is null, and an index beyond
  the rendered keys names no element either.
\<close>

definition playKey :: "real \<Rightarrow> nat option \<Rightarrow> PianoUI \<Rightarrow> PianoUI" where
  "playKey now keyElement ui =
     (case keyElement of
        None \<Rightarrow> ui
      | Some i \<Rightarrow>
          if i < length (piano ui) then
            (let k = piano ui ! i;
                 note = data_note k;
                 oct = data_octave k;
                 freq = getFrequency note oct
             in ui\<lparr>piano := (piano ui)[i := k\<lparr>active := True\<rparr>],
                   engine := playTone now (tone_key note oct) freq (resume (engine ui))\<rparr>)
          else ui)"

definition stopKey :: "real \<Rightarrow> nat option \<Rightarrow> PianoUI \<Rightarrow> PianoUI" where
  "stopKey now keyElement ui =
     (case keyElement of
        None \<Rightarrow> ui
      | Some i \<Rightarrow>
          if i < length (piano ui) then
            (let k = piano ui ! i;
                 note = data_note k;
                 oct = data_octave k
             in ui\<lparr>piano := (piano ui)[i := k\<lparr>active := False\<rparr>],
                   engine := stopTone now (tone_key note oct) (engine ui)\<rparr>)
          else ui)"

text \<open>The three handlers of \<open>initControls\<close>.\<close>

definition octave_up :: "PianoUI \<Rightarrow> PianoUI" where
  "octave_up ui =
     (if octave ui < 7
      then renderPiano (updateOctaveDisplay (ui\<lparr>octave := octave ui + 1\<rparr>))
      else ui)"

definition octave_down :: "PianoUI \<Rightarrow> PianoUI" where
  "octave_down ui =
     (if octave ui > 1
      then renderPiano (updateOctaveDisplay (ui\<lparr>octave := octave ui - 1\<rparr>))
      else ui)"

definition volume_input :: "real \<Rightarrow> real \<Rightarrow> PianoUI \<Rightarrow> PianoUI" where
  "volume_input now v ui = ui\<lparr>engine := setVolume now v (engine ui)\<rparr>"

text \<open>
  The constructor. It does not call \<open>updateOctaveDisplay\<close>, so the first readout is the
  text of the page, an argument here.
\<close>

definition new_PianoUI :: "context_state \<Rightarrow> string \<Rightarrow> PianoUI" where
  "new_PianoUI st readout =
     renderPiano
       \<lparr>engine = new_AudioEngine st, piano = [], octave = 4, baseOctave = 4,
        isDragging = False, octave_display = readout\<rparr>"


section \<open>Input handlers (PianoUI.initInput)\<close>

text \<open>
  An event's target is \<open>Some i\<close> when it is the key element \<open>i\<close> of the piano (an element
  whose class list contains \<open>key\<close>) and \<open>None\<close> for any other element.
\<close>

definition is_key :: "PianoUI \<Rightarrow> nat option \<Rightarrow> bool" where
  "is_key ui target = (case target of None \<Rightarrow> False | Some i \<Rightarrow> i < length (piano ui))"

text \<open>\<open>document.querySelectorAll('.key.active')\<close>: the active keys, in document order.\<close>

definition active_keys :: "PianoUI \<Rightarrow> nat list" where
  "active_keys ui = filter (\<lambda>i. active (piano ui ! i)) [0..<length (piano ui)]"

definition mousedown :: "real \<Rightarrow> nat option \<Rightarrow> PianoUI \<Rightarrow> PianoUI" where
  "mousedown now target ui =
     (if is_key ui target then (playKey now target ui)\<lparr>isDragging := True\<rparr> else ui)"

definition mouseup :: "real \<Rightarrow> PianoUI \<Rightarrow> PianoUI" where
  "mouseup now ui =
     (let ui1 = ui\<lparr>isDragging := False\<rparr>
      in fold (\<lambda>k. stopKey now (Some k)) (active_keys ui1) ui1)"

definition mouseover :: "real \<Rightarrow> nat option \<Rightarrow> PianoUI \<Rightarrow> PianoUI" where
  "mouseover now target ui =
     (if isDragging ui \<and> is_key ui target then playKey now target ui else ui)"

definition mouseout :: "real \<Rightarrow> nat option \<Rightarrow> PianoUI \<Rightarrow> PianoUI" where
  "mouseout now target ui =
     (if isDragging ui \<and> is_key ui target then stopKey now target ui else ui)"

text \<open>
  A changed touch: its identifier and the element that \<open>document.elementFromPoint\<close> finds
  under it.
\<close>

record touch =
  touch_identifier :: int
  touch_target :: "nat option"

definition set_touchId :: "nat \<Rightarrow> int option \<Rightarrow> PianoUI \<Rightarrow> PianoUI" where
  "set_touchId i t ui = ui\<lparr>piano := (piano ui)[i := (piano ui ! i)\<lparr>data_touchId := t\<rparr>]\<rparr>"

definition touchstart_one :: "real \<Rightarrow> touch \<Rightarrow> PianoUI \<Rightarrow> PianoUI" where
  "touchstart_one now t ui =
     (case touch_target t of
        None \<Rightarrow> ui
      | Some i \<Rightarrow>
          if i < length (piano ui)
          then set_touchId i (Some (touch_identifier t)) (playKey now (Some i) ui)
          else ui)"

definition touchstart :: "real \<Rightarrow> touch list \<Rightarrow> PianoUI \<Rightarrow> PianoUI" where
  "touchstart now changedTouches ui = fold (touchstart_one now) changedTouches ui"

definition touchend_key :: "real \<Rightarrow> touch \<Rightarrow> nat \<Rightarrow> PianoUI \<Rightarrow> PianoUI" where
  "touchend_key now t k ui =
     (if data_touchId (piano ui ! k) = Some (touch_identifier t)
      then set_touchId k None (stopKey now (Some k) ui)
      else ui)"

definition touchend_one :: "real \<Rightarrow> touch \<Rightarrow> PianoUI \<Rightarrow> PianoUI" where
  "touchend_one now t ui = fold (touchend_key now t) (active_keys ui) ui"

definition touchend :: "real \<Rightarrow> touch list \<Rightarrow> PianoUI \<Rightarrow> PianoUI" where
  "touchend now changedTouches ui = fold (touchend_one now) changedTouches ui"

text \<open>A keyboard event: \<open>e.key\<close> and \<open>e.repeat\<close>.\<close>

record key_event =
  ev_key :: string
  ev_repeat :: bool

text \<open>
  \<open>document.querySelector('.key[data-note="n"][data-octave="o"]')\<close>: the first rendered
  key with these attributes, or null.
\<close>

definition querySelector :: "PianoUI \<Rightarrow> string \<Rightarrow> int \<Rightarrow> nat option" where
  "querySelector ui n oc =
     (case filter (\<lambda>i. data_note (piano ui ! i) = n \<and> data_octave (piano ui ! i) = oc)
             [0..<length (piano ui)] of
        [] \<Rightarrow> None
      | i # _ \<Rightarrow> Some i)"

text \<open>
  Both keyboard handlers compute the target note and octave from \<open>noteBase\<close> with the
  same lines; they are written once here.
\<close>

definition key_target :: "PianoUI \<Rightarrow> string \<Rightarrow> string \<times> int" where
  "key_target ui noteBase =
     (if noteBase = ''C2'' then (''C'', octave ui + 1) else (noteBase, octave ui))"

definition keydown :: "real \<Rightarrow> key_event \<Rightarrow> PianoUI \<Rightarrow> PianoUI" where
  "keydown now ev ui =
     (if ev_repeat ev then ui
      else case KEY_MAP (toLowerCase (ev_key ev)) of
             None \<Rightarrow> ui
           | Some noteBase \<Rightarrow>
               (let (targetNote, targetOctave) = key_target ui noteBase
                in playKey now (querySelector ui targetNote targetOctave) ui))"

definition keyup :: "real \<Rightarrow> key_event \<Rightarrow> PianoUI \<Rightarrow> PianoUI" where
  "keyup now ev ui =
     (case KEY_MAP (toLowerCase (ev_key ev)) of
        None \<Rightarrow> ui
      | Some noteBase \<Rightarrow>
          (let (targetNote, targetOctave) = key_target ui noteBase
           in stopKey now (querySelector ui targetNote targetOctave) ui))"

text \<open>The events of the page, each delivered at a time of the audio clock.\<close>

datatype event =
    OctaveUp
  | OctaveDown
  | VolumeInput real
  | MouseDown "nat option"
  | MouseUp
  | MouseOver "nat option"
  | MouseOut "nat option"
  | TouchStart "touch list"
  | TouchEnd "touch list"
  | KeyDown key_event
  | KeyUp key_event

fun dispatch :: "real \<times> event \<Rightarrow> PianoUI \<Rightarrow> PianoUI" where
  "dispatch (now, OctaveUp) ui = octave_up ui"
| "dispatch (now, OctaveDown) ui = octave_down ui"
| "dispatch (now, VolumeInput v) ui = volume_input now v ui"
| "dispatch (now, MouseDown t) ui = mousedown now t ui"
| "dispatch (now, MouseUp) ui = mouseup now ui"
| "dispatch (now, MouseOver t) ui = mouseover now t ui"
| "dispatch (now, MouseOut t) ui = mouseout now t ui"
| "dispatch (now, TouchStart ts) ui = touchstart now ts ui"
| "dispatch (now, TouchEnd ts) ui = touchend now ts ui"
| "dispatch (now, KeyDown ev) ui = keydown now ev ui"
| "dispatch (now, KeyUp ev) ui = keyup now ev ui"

definition run :: "(real \<times> event) list \<Rightarrow> PianoUI \<Rightarrow> PianoUI" where
  "run evs ui = fold dispatch evs ui"

text \<open>Whether a timed event is a key-down that the platform flags as an auto-repeat.\<close>

fun is_repeat :: "real \<times> event \<Rightarrow> bool" where
  "is_repeat (now, KeyDown ev) = ev_repeat ev"
| "is_repeat (now, _) = False"

section \<open>The offline cache worker (the fetch listener of the service worker)\<close>

text \<open>
  A request is its URL. The cache storage is the list of the named caches in the order
  of their creation, each a list of stored (request, response) entries;
  \<open>caches.match\<close> answers from the first cache that holds a matching entry. The network
  is a function that answers a request or fails (\<open>None\<close>, a rejected promise). The worker's
  state records the requests it has sent to the network.
\<close>

record 'r worker =
  caches :: "(string \<times> (string \<times> 'r) list) list"
  sent :: "string list"

fun caches_match :: "(string \<times> (string \<times> 'r) list) list \<Rightarrow> string \<Rightarrow> 'r option" where
  "caches_match [] request = None"
| "caches_match ((name, entries) # rest) request =
     (case map_of entries request of
        Some response \<Rightarrow> Some response
      | None \<Rightarrow> caches_match rest request)"

definition fetch :: "(string \<Rightarrow> 'r option) \<Rightarrow> string \<Rightarrow> 'r worker \<Rightarrow> 'r option \<times> 'r worker" where
  "fetch network request w = (network request, w\<lparr>sent := sent w @ [request]\<rparr>)"

definition on_fetch :: "(string \<Rightarrow> 'r option) \<Rightarrow> string \<Rightarrow> 'r worker \<Rightarrow> 'r option \<times> 'r worker" where
  "on_fetch network request w =
     (case caches_match (caches w) request of
        Some response \<Rightarrow> (Some response, w)
      | None \<Rightarrow> fetch network request w)"

section \<open>Auxiliary notions for the proofs\<close>

text \<open>
  The characters that the decimal text of an integer is made of, and the value of a digit.
\<close>

definition numeric :: "char \<Rightarrow> bool" where
  "numeric c \<longleftrightarrow> c = CHR ''-'' \<or> ((48::nat) \<le> of_char c \<and> of_char c \<le> (57::nat))"

definition digit_value :: "char \<Rightarrow> nat" where
  "digit_value c = of_char c - 48"


section \<open>The engine keeps one live voice per key\<close>

lemma sounding_stopTone:
  "oscillators e k = Some v \<Longrightarrow> osc v < length (osc_nodes e) \<Longrightarrow>
   sounding (stopTone now k e) i \<longleftrightarrow> sounding e i \<and> i \<noteq> osc v"
  by (auto simp: sounding_def stopTone_def stop_osc_def nth_list_update)

lemma oscillators_stopTone: "oscillators (stopTone now k e) = (oscillators e)(k := None)"
  by (auto simp: stopTone_def split: option.splits)

lemma gain_nodes_length_stopTone: "length (gain_nodes (stopTone now k e)) = length (gain_nodes e)"
  by (simp add: stopTone_def split: option.splits)

lemma engine_inv_new: "engine_inv (new_AudioEngine st)"
  by (simp add: engine_inv_def new_AudioEngine_def sounding_def)

lemma sounding_allocate:
  "sounding (allocate now k f e) i \<longleftrightarrow> sounding e i \<or> i = length (osc_nodes e)"
  by (auto simp: sounding_def allocate_def Let_def nth_append new_osc_def)

lemma oscillators_allocate:
  "oscillators (allocate now k f e) = (oscillators e)(k \<mapsto> \<lparr>osc = length (osc_nodes e), gain = length (gain_nodes e)\<rparr>)"
  by (simp add: allocate_def Let_def)

lemma gain_nodes_length_allocate: "length (gain_nodes (allocate now k f e)) = Suc (length (gain_nodes e))"
  by (simp add: allocate_def Let_def)

lemma engine_inv_stopTone:
  assumes inv: "engine_inv e" shows "engine_inv (stopTone now k e)"
proof (cases "oscillators e k")
  case None
  then show ?thesis using inv by (simp add: stopTone_def)
next
  case (Some v)
  from inv Some have lt: "osc v < length (osc_nodes e)"
    by (auto simp: engine_inv_def sounding_def)
  from inv have a: "\<And>k v. oscillators e k = Some v \<Longrightarrow> sounding e (osc v) \<and> gain v < length (gain_nodes e)"
    and b: "\<And>i. sounding e i \<Longrightarrow> \<exists>k v. oscillators e k = Some v \<and> osc v = i"
    and c: "\<And>k k' v v'. oscillators e k = Some v \<Longrightarrow> oscillators e k' = Some v' \<Longrightarrow> osc v = osc v' \<Longrightarrow> k = k'"
    unfolding engine_inv_def by blast+
  have s: "\<And>i. sounding (stopTone now k e) i \<longleftrightarrow> sounding e i \<and> i \<noteq> osc v"
    by (rule sounding_stopTone[OF Some lt])
  have 1: "\<forall>k' v'. oscillators (stopTone now k e) k' = Some v' \<longrightarrow>
             sounding (stopTone now k e) (osc v') \<and> gain v' < length (gain_nodes (stopTone now k e))"
  proof (intro allI impI)
    fix k' v' assume h: "oscillators (stopTone now k e) k' = Some v'"
    then have ne: "k' \<noteq> k" and h': "oscillators e k' = Some v'"
      by (auto simp: oscillators_stopTone split: if_splits)
    from c[OF h' Some] ne have "osc v' \<noteq> osc v" by blast
    with a[OF h'] show "sounding (stopTone now k e) (osc v') \<and> gain v' < length (gain_nodes (stopTone now k e))"
      by (simp add: s gain_nodes_length_stopTone)
  qed
  have 2: "\<forall>i. sounding (stopTone now k e) i \<longrightarrow> (\<exists>k' v'. oscillators (stopTone now k e) k' = Some v' \<and> osc v' = i)"
  proof (intro allI impI)
    fix i assume "sounding (stopTone now k e) i"
    then have si: "sounding e i" and ne: "i \<noteq> osc v" by (simp_all add: s)
    from b[OF si] obtain k' v' where h': "oscillators e k' = Some v'" "osc v' = i" by blast
    with ne Some have "k' \<noteq> k" by auto
    with h' show "\<exists>k' v'. oscillators (stopTone now k e) k' = Some v' \<and> osc v' = i"
      by (auto simp: oscillators_stopTone)
  qed
  have 3: "\<forall>k1 k2 v1 v2. oscillators (stopTone now k e) k1 = Some v1 \<and> oscillators (stopTone now k e) k2 = Some v2 \<and> osc v1 = osc v2 \<longrightarrow> k1 = k2"
    using c by (auto simp: oscillators_stopTone split: if_splits)
  from 1 2 3 show ?thesis unfolding engine_inv_def by blast
qed

lemma engine_inv_allocate:
  assumes inv: "engine_inv e" and free: "oscillators e k = None"
  shows "engine_inv (allocate now k f e)"
proof -
  let ?e' = "allocate now k f e"
  from inv have a: "\<And>k v. oscillators e k = Some v \<Longrightarrow> sounding e (osc v) \<and> gain v < length (gain_nodes e)"
    and b: "\<And>i. sounding e i \<Longrightarrow> \<exists>k v. oscillators e k = Some v \<and> osc v = i"
    and c: "\<And>k k' v v'. oscillators e k = Some v \<Longrightarrow> oscillators e k' = Some v' \<Longrightarrow> osc v = osc v' \<Longrightarrow> k = k'"
    unfolding engine_inv_def by blast+
  have old: "\<And>k' v'. oscillators e k' = Some v' \<Longrightarrow> osc v' < length (osc_nodes e)"
    using a by (auto simp: sounding_def)
  have 1: "\<forall>k' v'. oscillators ?e' k' = Some v' \<longrightarrow>
             sounding ?e' (osc v') \<and> gain v' < length (gain_nodes ?e')"
    using a by (auto simp: oscillators_allocate sounding_allocate gain_nodes_length_allocate less_Suc_eq split: if_splits)
  have 2: "\<forall>i. sounding ?e' i \<longrightarrow> (\<exists>k' v'. oscillators ?e' k' = Some v' \<and> osc v' = i)"
  proof (intro allI impI)
    fix i assume "sounding ?e' i"
    then consider "sounding e i" | "i = length (osc_nodes e)" by (auto simp: sounding_allocate)
    then show "\<exists>k' v'. oscillators ?e' k' = Some v' \<and> osc v' = i"
    proof cases
      case 1
      from b[OF 1] obtain k' v' where h': "oscillators e k' = Some v'" "osc v' = i" by blast
      with free have "k' \<noteq> k" by auto
      with h' show ?thesis by (auto simp: oscillators_allocate)
    next
      case 2
      then show ?thesis by (auto simp: oscillators_allocate)
    qed
  qed
  have 3: "\<forall>k1 k2 v1 v2. oscillators ?e' k1 = Some v1 \<and> oscillators ?e' k2 = Some v2 \<and> osc v1 = osc v2 \<longrightarrow> k1 = k2"
  proof (intro allI impI, elim conjE)
    fix k1 k2 v1 v2
    assume h: "oscillators ?e' k1 = Some v1" "oscillators ?e' k2 = Some v2" "osc v1 = osc v2"
    show "k1 = k2"
    proof (cases "k1 = k"; cases "k2 = k")
      assume "k1 = k" "k2 = k" then show ?thesis by simp
    next
      assume n: "k1 = k" "k2 \<noteq> k"
      with h have "osc v1 = length (osc_nodes e)" "oscillators e k2 = Some v2"
        by (auto simp: oscillators_allocate)
      with old[of k2 v2] h(3) show ?thesis by simp
    next
      assume n: "k1 \<noteq> k" "k2 = k"
      with h have "osc v2 = length (osc_nodes e)" "oscillators e k1 = Some v1"
        by (auto simp: oscillators_allocate)
      with old[of k1 v1] h(3) show ?thesis by simp
    next
      assume n: "k1 \<noteq> k" "k2 \<noteq> k"
      with h have "oscillators e k1 = Some v1" "oscillators e k2 = Some v2"
        by (auto simp: oscillators_allocate)
      with c h(3) show ?thesis by blast
    qed
  qed
  from 1 2 3 show ?thesis unfolding engine_inv_def by blast
qed

lemma engine_inv_playTone: "engine_inv e \<Longrightarrow> engine_inv (playTone now k f e)"
  unfolding playTone_def
  by (auto intro!: engine_inv_allocate engine_inv_stopTone simp: oscillators_stopTone)

lemma engine_inv_setVolume: "engine_inv e \<Longrightarrow> engine_inv (setVolume now v e)"
  by (simp add: engine_inv_def setVolume_def sounding_def)

lemma engine_inv_resume: "engine_inv e \<Longrightarrow> engine_inv (resume e)"
  by (simp add: engine_inv_def resume_def sounding_def)

lemma engine_inv_call: "engine_inv e \<Longrightarrow> engine_inv (call c e)"
  by (cases c) (simp_all add: engine_inv_playTone engine_inv_stopTone engine_inv_setVolume engine_inv_resume)

lemma engine_inv_calls: "engine_inv e \<Longrightarrow> engine_inv (calls cs e)"
  by (induction cs arbitrary: e) (simp_all add: engine_inv_call)

lemma playTone_as_release_then_allocate:
  "playTone now k f e = allocate now k f (stopTone now k e)"
  by (cases "oscillators e k") (simp_all add: playTone_def stopTone_def)

lemma oscillators_playTone:
  "oscillators (playTone now k f e) =
     (oscillators e)(k \<mapsto> \<lparr>osc = length (osc_nodes e), gain = length (gain_nodes e)\<rparr>)"
  by (auto simp: playTone_as_release_then_allocate oscillators_allocate oscillators_stopTone
        stopTone_def split: option.splits)

lemma sounding_unique_key:
  assumes "engine_inv e" "sounding e i"
  shows "\<exists>!k. \<exists>v. oscillators e k = Some v \<and> osc v = i"
proof -
  from assms obtain k v where kv: "oscillators e k = Some v" "osc v = i"
    unfolding engine_inv_def by blast
  show ?thesis
  proof (rule ex1I[of _ k])
    show "\<exists>v. oscillators e k = Some v \<and> osc v = i" using kv by blast
  next
    fix k' assume "\<exists>v. oscillators e k' = Some v \<and> osc v = i"
    then obtain v' where "oscillators e k' = Some v'" "osc v' = i" by blast
    with kv assms(1) show "k' = k" unfolding engine_inv_def by metis
  qed
qed

text \<open>
  Claim C1. Whatever calls the engine has received since its construction, every voice in
  the \<open>oscillators\<close> map is a source that sounds (started, no stop scheduled), and every
  sounding source is registered under exactly one key: an identity never has two live
  voices. A second \<open>playTone\<close> of the same key is a \<open>stopTone\<close> of the first voice followed
  by the allocation of the new one; afterwards the map holds the key once, with the new
  voice, and the first voice's source no longer sounds.
\<close>

theorem one_live_voice_per_identity:
  assumes "e = calls cs (new_AudioEngine st)"
    and "e1 = playTone t1 k f1 e" and "e2 = playTone t2 k f2 e1"
  shows "(\<forall>k' v. oscillators e k' = Some v \<longrightarrow> sounding e (osc v)) \<and>
         (\<forall>i. sounding e i \<longrightarrow> (\<exists>!k'. \<exists>v. oscillators e k' = Some v \<and> osc v = i)) \<and>
         e2 = allocate t2 k f2 (stopTone t2 k e1) \<and>
         dom (oscillators e2) = insert k (dom (oscillators e)) \<and>
         (\<exists>v1 v2. oscillators e1 k = Some v1 \<and> oscillators e2 k = Some v2 \<and>
                   osc v1 \<noteq> osc v2 \<and> \<not> sounding e2 (osc v1) \<and> sounding e2 (osc v2))"
proof -
  have inv: "engine_inv e" using assms(1) by (simp add: engine_inv_calls engine_inv_new)
  have inv1: "engine_inv e1" using inv assms(2) by (simp add: engine_inv_playTone)
  have inv2: "engine_inv e2" using inv1 assms(3) by (simp add: engine_inv_playTone)
  have a: "\<forall>k' v. oscillators e k' = Some v \<longrightarrow> sounding e (osc v)"
    using inv unfolding engine_inv_def by blast
  have b: "\<forall>i. sounding e i \<longrightarrow> (\<exists>!k'. \<exists>v. oscillators e k' = Some v \<and> osc v = i)"
    using inv sounding_unique_key by blast
  have c: "e2 = allocate t2 k f2 (stopTone t2 k e1)"
    using assms(3) by (simp add: playTone_as_release_then_allocate)
  have d: "dom (oscillators e2) = insert k (dom (oscillators e))"
    using assms(2,3) by (simp add: oscillators_playTone)
  define v1 where "v1 = \<lparr>osc = length (osc_nodes e), gain = length (gain_nodes e)\<rparr>"
  define v2 where "v2 = \<lparr>osc = length (osc_nodes e1), gain = length (gain_nodes e1)\<rparr>"
  have r1: "oscillators e1 k = Some v1" using assms(2) by (simp add: oscillators_playTone v1_def)
  have r2: "oscillators e2 k = Some v2" using assms(3) by (simp add: oscillators_playTone v2_def)
  have s1: "sounding e1 (osc v1)" using inv1 r1 unfolding engine_inv_def by blast
  then have lt: "osc v1 < length (osc_nodes e1)" by (simp add: sounding_def)
  then have ne: "osc v1 \<noteq> osc v2" by (simp add: v2_def)
  have s2: "sounding e2 (osc v2)" using inv2 r2 unfolding engine_inv_def by blast
  have "\<not> sounding (stopTone t2 k e1) (osc v1)"
    by (simp add: sounding_stopTone[OF r1 lt])
  then have ns: "\<not> sounding e2 (osc v1)"
    using ne by (simp add: c sounding_allocate v2_def stopTone_def r1)
  from a b c d r1 r2 ne ns s2 show ?thesis by blast
qed

lemma example_played_once:
  "oscillators (calls [PlayTone 0 ''A4'' 440] (new_AudioEngine Running)) ''A4''
     = Some \<lparr>osc = 0, gain = 0\<rparr>"
  by (simp add: playTone_def allocate_def new_AudioEngine_def)

lemma example_played_once_dom:
  "dom (oscillators (calls [PlayTone 0 ''A4'' 440] (new_AudioEngine Running))) = {''A4''}"
  by (simp add: playTone_def allocate_def new_AudioEngine_def)

theorem one_live_voice_per_identity_witness:
  "oscillators (calls [PlayTone 0 ''A4'' 440] (new_AudioEngine Running)) ''A4'' = Some \<lparr>osc = 0, gain = 0\<rparr> \<and>
   sounding (calls [PlayTone 0 ''A4'' 440] (new_AudioEngine Running)) 0 \<and>
   dom (oscillators (playTone 2 ''A4'' 440 (playTone 1 ''A4'' 440
          (calls [PlayTone 0 ''A4'' 440] (new_AudioEngine Running))))) = {''A4''}"
proof -
  define e where "e = calls [PlayTone 0 ''A4'' 440] (new_AudioEngine Running)"
  have h: "oscillators e ''A4'' = Some \<lparr>osc = 0, gain = 0\<rparr>"
    unfolding e_def by (rule example_played_once)
  have d: "dom (oscillators e) = {''A4''}"
    unfolding e_def by (rule example_played_once_dom)
  note t = one_live_voice_per_identity[OF e_def refl refl, of 2 "''A4''" 440 1 440]
  from t have a: "\<forall>k' v. oscillators e k' = Some v \<longrightarrow> sounding e (osc v)" by (rule conjunct1)
  from t have b: "dom (oscillators (playTone 2 ''A4'' 440 (playTone 1 ''A4'' 440 e))) = insert ''A4'' (dom (oscillators e))"
    by (elim conjE)
  from a h have s: "sounding e (osc \<lparr>osc = 0, gain = 0\<rparr>)" by (elim allE impE)
  then have s': "sounding e 0" by simp
  from h s' b d show ?thesis unfolding e_def by simp
qed

lemma stopTone_registered:
  assumes "oscillators e k = Some v" "osc v < length (osc_nodes e)" "gain v < length (gain_nodes e)"
  shows "osc_nodes (stopTone now k e) ! osc v = stop_osc (now + 0.1) (osc_nodes e ! osc v)"
    and "gain_nodes (stopTone now k e) ! gain v = release_gain now (gain_nodes e ! gain v)"
    and "length (osc_nodes (stopTone now k e)) = length (osc_nodes e)"
    and "length (gain_nodes (stopTone now k e)) = length (gain_nodes e)"
  using assms by (simp_all add: stopTone_def)

lemma allocate_keeps_old:
  "i < length (osc_nodes e) \<Longrightarrow> osc_nodes (allocate now k f e) ! i = osc_nodes e ! i"
  "j < length (gain_nodes e) \<Longrightarrow> gain_nodes (allocate now k f e) ! j = gain_nodes e ! j"
  by (simp_all add: allocate_def Let_def nth_append)

lemma release_gain_events:
  "param_events (gain_param (release_gain now g)) =
     filter (\<lambda>a. event_time a < now) (param_events (gain_param g)) @
       [SetCurrentValueAtTime now, ExponentialRampToValueAtTime 0.001 (now + 0.1)]"
  by (simp add: release_gain_def schedule_def cancelScheduledValues_def)

text \<open>
  Claim C3, amended. A \<open>playTone\<close> of a key that has a live voice tears the old voice down
  through \<open>stopTone\<close>, before the new voice is created: the old gain's scheduled changes
  from the current time on are cancelled, its current value is held and ramped to 0.001
  over 0.1 s, the old source is scheduled to stop at the current time plus 0.1 s, and the
  key is deleted from the map; then the new voice is registered under the key.
\<close>

theorem retrigger_releases_old_voice:
  assumes "e = calls cs (new_AudioEngine st)" and "oscillators e k = Some v"
    and "e' = playTone now k f e"
  shows "e' = allocate now k f (stopTone now k e) \<and>
         oscillators (stopTone now k e) k = None \<and>
         param_events (gain_param (gain_nodes e' ! gain v)) =
           filter (\<lambda>a. event_time a < now) (param_events (gain_param (gain_nodes e ! gain v))) @
             [SetCurrentValueAtTime now, ExponentialRampToValueAtTime 0.001 (now + 0.1)] \<and>
         osc_stop_at (osc_nodes e' ! osc v) = Some (now + 0.1) \<and>
         oscillators e' k = Some \<lparr>osc = length (osc_nodes e), gain = length (gain_nodes e)\<rparr> \<and>
         osc v < length (osc_nodes e) \<and> gain v < length (gain_nodes e)"
proof -
  have inv: "engine_inv e" using assms(1) by (simp add: engine_inv_calls engine_inv_new)
  with assms(2) have lo: "osc v < length (osc_nodes e)" and lg: "gain v < length (gain_nodes e)"
    unfolding engine_inv_def sounding_def by blast+
  note st = stopTone_registered[OF assms(2) lo lg, of now]
  have a: "e' = allocate now k f (stopTone now k e)"
    using assms(3) by (simp add: playTone_as_release_then_allocate)
  have b: "oscillators (stopTone now k e) k = None" by (simp add: oscillators_stopTone)
  have "gain_nodes e' ! gain v = release_gain now (gain_nodes e ! gain v)"
    using lg by (simp add: a allocate_keeps_old st)
  then have c: "param_events (gain_param (gain_nodes e' ! gain v)) =
           filter (\<lambda>a. event_time a < now) (param_events (gain_param (gain_nodes e ! gain v))) @
             [SetCurrentValueAtTime now, ExponentialRampToValueAtTime 0.001 (now + 0.1)]"
    by (simp add: release_gain_events)
  have "osc_nodes e' ! osc v = stop_osc (now + 0.1) (osc_nodes e ! osc v)"
    using lo by (simp add: a allocate_keeps_old st)
  then have d: "osc_stop_at (osc_nodes e' ! osc v) = Some (now + 0.1)"
    by (simp add: stop_osc_def)
  have r: "oscillators e' k = Some \<lparr>osc = length (osc_nodes e), gain = length (gain_nodes e)\<rparr>"
    using assms(3) by (simp add: oscillators_playTone)
  from a b c d r lo lg show ?thesis by blast
qed

lemma retrigger_example_first:
  "playTone 0 ''A4'' 440 (new_AudioEngine Running) =
     \<lparr>ctx_state = Running,
      masterGain = \<lparr>param_value = 0.5, param_events = []\<rparr>,
      oscillators = [''A4'' \<mapsto> \<lparr>osc = 0, gain = 0\<rparr>],
      osc_nodes = [new_osc 0 440 0],
      gain_nodes = [new_gain 0]\<rparr>"
  by (simp add: playTone_def allocate_def new_AudioEngine_def)

lemma retrigger_example_second:
  "osc_nodes (playTone 1 ''A4'' 440 (playTone 0 ''A4'' 440 (new_AudioEngine Running))) ! 0
     = stop_osc (1 + 0.1) (new_osc 0 440 0)"
  unfolding retrigger_example_first
  by (simp add: playTone_def allocate_def stopTone_def)

text \<open>
  Claim C3 fails as stated: the key \<open>A4\<close> is played at time 0 and played again at time 1.
  The first voice's source is then scheduled to stop at 1.1, after the release fade, and
  not at the current time 1.
\<close>

theorem retrigger_stop_is_not_immediate:
  "oscillators (playTone 0 ''A4'' 440 (new_AudioEngine Running)) ''A4'' = Some \<lparr>osc = 0, gain = 0\<rparr> \<and>
   osc_stop_at (osc_nodes (playTone 1 ''A4'' 440 (playTone 0 ''A4'' 440 (new_AudioEngine Running))) ! 0)
     = Some (11 / 10) \<and>
   osc_stop_at (osc_nodes (playTone 1 ''A4'' 440 (playTone 0 ''A4'' 440 (new_AudioEngine Running))) ! 0)
     \<noteq> Some 1"
  unfolding retrigger_example_second
  by (simp add: stop_osc_def retrigger_example_first)

theorem retrigger_releases_old_voice_witness:
  "oscillators (calls [PlayTone 0 ''A4'' 440] (new_AudioEngine Running)) ''A4'' = Some \<lparr>osc = 0, gain = 0\<rparr> \<and>
   osc_stop_at (osc_nodes (playTone 1 ''A4'' 440 (calls [PlayTone 0 ''A4'' 440] (new_AudioEngine Running))) ! 0)
     = Some (11 / 10)"
proof -
  define e where "e = calls [PlayTone 0 ''A4'' 440] (new_AudioEngine Running)"
  have h: "oscillators e ''A4'' = Some \<lparr>osc = 0, gain = 0\<rparr>"
    unfolding e_def by (simp add: retrigger_example_first)
  from retrigger_releases_old_voice[OF e_def h refl, of 1 440]
  have "osc_stop_at (osc_nodes (playTone 1 ''A4'' 440 e) ! osc \<lparr>osc = 0, gain = 0\<rparr>) = Some (1 + 0.1)"
    by (elim conjE)
  then have "osc_stop_at (osc_nodes (playTone 1 ''A4'' 440 e) ! 0) = Some (11 / 10)" by simp
  with h show ?thesis unfolding e_def by simp
qed

text \<open>
  Claim C4. \<open>stopTone\<close> of a key with no voice in the map returns the engine as it was:
  the map, the master gain, every node. The model has no failing branch there, as the
  source has none.
\<close>

theorem release_without_voice_is_noop:
  assumes "oscillators e k = None"
  shows "stopTone now k e = e"
  using assms by (simp add: stopTone_def)

theorem release_without_voice_is_noop_witness:
  "oscillators (playTone 0 ''A4'' 440 (new_AudioEngine Running)) ''C4'' = None \<and>
   stopTone 1 ''C4'' (playTone 0 ''A4'' 440 (new_AudioEngine Running))
     = playTone 0 ''A4'' 440 (new_AudioEngine Running)"
proof -
  have h: "oscillators (playTone 0 ''A4'' 440 (new_AudioEngine Running)) ''C4'' = None"
    by (simp add: retrigger_example_first)
  from h release_without_voice_is_noop[OF h] show ?thesis by simp
qed

section \<open>Frequencies\<close>

lemma indexOf_NOTES:
  "n \<in> set NOTES \<Longrightarrow> indexOf NOTES n = pitchClassIndex n"
  by (auto simp: NOTES_def pitchClassIndex_def)

lemma pitchClassIndex_A: "pitchClassIndex ''A'' = 9"
  by (simp add: pitchClassIndex_def)

lemma supported_note: "supported note oct \<Longrightarrow> note \<in> set NOTES"
  by (auto simp: supported_def NOTES_def)

lemma getFrequency_A4: "getFrequency ''A'' 4 = 440"
  by (simp add: getFrequency_def NOTES_def)

lemma getFrequency_A5: "getFrequency ''A'' 5 = 880"
  by (simp add: getFrequency_def NOTES_def)

text \<open>
  Claim C2. For every supported identity the computed frequency is
  \<open>440 * 2 powr (d / 12)\<close> with \<open>d = (octave - 4) * 12 + (pitchClassIndex note - pitchClassIndex A)\<close>,
  the index that \<open>NOTES.indexOf\<close> finds being the pitch-class index C = 0, ..., B = 11;
  (A, 4) gives 440 and (A, 5) gives 880. Numbers are reals here.
\<close>

theorem frequency_is_equal_tempered:
  assumes "supported note oct"
  shows "getFrequency note oct =
           440 * 2 powr (real_of_int ((oct - 4) * 12 + (pitchClassIndex note - pitchClassIndex ''A'')) / 12) \<and>
         getFrequency ''A'' 4 = 440 \<and> getFrequency ''A'' 5 = 880"
proof -
  have n: "note \<in> set NOTES" by (rule supported_note[OF assms])
  have "getFrequency note oct =
           440 * 2 powr (real_of_int ((oct - 4) * 12 + (pitchClassIndex note - pitchClassIndex ''A'')) / 12)"
    by (simp add: getFrequency_def indexOf_NOTES[OF n] pitchClassIndex_A)
  with getFrequency_A4 getFrequency_A5 show ?thesis by blast
qed

theorem frequency_is_equal_tempered_witness:
  "supported ''C'' 8 \<and> getFrequency ''C'' 8 = 440 * 2 powr (39 / 12) \<and>
   supported ''A'' 4 \<and> getFrequency ''A'' 4 = 440"
proof -
  have h: "supported ''C'' 8" by (simp add: supported_def)
  have h2: "supported ''A'' 4" by (simp add: supported_def NOTES_def)
  from frequency_is_equal_tempered[OF h]
  have "getFrequency ''C'' 8 = 440 * 2 powr (real_of_int ((8 - 4) * 12 + (pitchClassIndex ''C'' - pitchClassIndex ''A'')) / 12)"
    by (rule conjunct1)
  then have a: "getFrequency ''C'' 8 = 440 * 2 powr (39 / 12)"
    by (simp add: pitchClassIndex_def)
  from frequency_is_equal_tempered[OF h2] have b: "getFrequency ''A'' 4 = 440" by (elim conjE)
  from h h2 a b show ?thesis by blast
qed

section \<open>Key strings\<close>

lemma digit_value_char_of: "(d::nat) < 10 \<Longrightarrow> digit_value (char_of (48 + d)) = d"
  by (simp add: digit_value_def)

lemma dec_not_Nil: "dec n \<noteq> []"
  by (subst dec.simps) simp

lemma dec_value: "foldl (\<lambda>a c. 10 * a + digit_value c) 0 (dec n) = n"
proof (induction n rule: dec.induct)
  case (1 n)
  show ?case
  proof (cases "n < 10")
    case True
    then show ?thesis by (subst dec.simps) (simp add: digit_value_char_of)
  next
    case False
    with 1 have "foldl (\<lambda>a c. 10 * a + digit_value c) 0 (dec (n div 10)) = n div 10" by simp
    with False show ?thesis
      by (subst dec.simps) (simp add: digit_value_char_of)
  qed
qed

lemma dec_inj: "dec m = dec n \<Longrightarrow> m = n"
  by (metis dec_value)

lemma numeric_char_of: "(d::nat) < 10 \<Longrightarrow> numeric (char_of (48 + d)) \<and> char_of (48 + d) \<noteq> CHR ''-''"
proof -
  assume d: "d < 10"
  have v: "of_char (char_of (48 + d)) = (48 + d :: nat)" using d by simp
  have m: "of_char (CHR ''-'') = (45 :: nat)" by simp
  have "char_of (48 + d) \<noteq> CHR ''-''"
  proof
    assume "char_of (48 + d) = CHR ''-''"
    then have "(of_char (char_of (48 + d)) :: nat) = of_char (CHR ''-'')" by (rule arg_cong)
    with v m show False by simp
  qed
  moreover have "numeric (char_of (48 + d))" using v d unfolding numeric_def by simp
  ultimately show ?thesis by blast
qed

lemma dec_numeric: "c \<in> set (dec n) \<Longrightarrow> numeric c \<and> c \<noteq> CHR ''-''"
proof (induction n rule: dec.induct)
  case (1 n)
  show ?case
  proof (cases "n < 10")
    case True
    with 1(2) show ?thesis by (subst (asm) dec.simps) (simp add: numeric_char_of)
  next
    case False
    with 1 show ?thesis
      by (subst (asm) (2) dec.simps) (auto simp: numeric_char_of)
  qed
qed

lemma number_string_numeric: "c \<in> set (number_string i) \<Longrightarrow> numeric c"
  by (auto simp: number_string_def numeric_def dest: dec_numeric split: if_splits)

lemma number_string_inj: "number_string i = number_string j \<Longrightarrow> i = j"
proof -
  assume eq: "number_string i = number_string j"
  have hd_dec: "\<And>n. hd (dec n) \<noteq> CHR ''-''"
    using dec_numeric dec_not_Nil by (metis hd_in_set)
  show ?thesis
  proof (cases "i < 0"; cases "j < 0")
    assume "i < 0" "j < 0"
    with eq have "dec (nat (- i)) = dec (nat (- j))" by (simp add: number_string_def)
    then have "nat (- i) = nat (- j)" by (rule dec_inj)
    with \<open>i < 0\<close> \<open>j < 0\<close> show ?thesis by simp
  next
    assume "i < 0" "\<not> j < 0"
    with eq have "CHR ''-'' # dec (nat (- i)) = dec (nat j)" by (simp add: number_string_def)
    then have "hd (dec (nat j)) = CHR ''-''" by (metis list.sel(1))
    with hd_dec show ?thesis by blast
  next
    assume "\<not> i < 0" "j < 0"
    with eq have "dec (nat i) = CHR ''-'' # dec (nat (- j))" by (simp add: number_string_def)
    then have "hd (dec (nat i)) = CHR ''-''" by (metis list.sel(1))
    with hd_dec show ?thesis by blast
  next
    assume "\<not> i < 0" "\<not> j < 0"
    with eq have "dec (nat i) = dec (nat j)" by (simp add: number_string_def)
    then have "nat i = nat j" by (rule dec_inj)
    with \<open>\<not> i < 0\<close> \<open>\<not> j < 0\<close> show ?thesis by simp
  qed
qed

lemma number_string_not_Nil: "number_string i \<noteq> []"
  by (simp add: number_string_def dec_not_Nil)

lemma NOTES_not_numeric: "n \<in> set NOTES \<Longrightarrow> c \<in> set n \<Longrightarrow> \<not> numeric c"
  by (auto simp: NOTES_def numeric_def)

lemma split_at_first_numeric:
  assumes "\<forall>c\<in>set a. \<not> numeric c" "\<forall>c\<in>set a'. \<not> numeric c"
    and "\<forall>c\<in>set b. numeric c" "\<forall>c\<in>set b'. numeric c"
    and "a @ b = a' @ b'"
  shows "a = a' \<and> b = b'"
  using assms
proof (induction a arbitrary: a')
  case Nil
  then show ?case by (cases a') auto
next
  case (Cons x xs)
  show ?case
  proof (cases a')
    case Nil
    with Cons.prems show ?thesis by auto
  next
    case (Cons y ys)
    with Cons.prems Cons.IH[of ys] show ?thesis by auto
  qed
qed

lemma tone_key_inj:
  assumes "n1 \<in> set NOTES" "n2 \<in> set NOTES" "tone_key n1 o1 = tone_key n2 o2"
  shows "n1 = n2 \<and> o1 = o2"
proof -
  have "n1 = n2 \<and> number_string o1 = number_string o2"
    using assms NOTES_not_numeric number_string_numeric
    by (intro split_at_first_numeric) (auto simp: tone_key_def)
  then show ?thesis using number_string_inj by blast
qed

lemma stopTone_other_entry:
  assumes "k' \<noteq> k"
  shows "stopTone now k (e\<lparr>oscillators := (oscillators e)(k' := x)\<rparr>) =
         (stopTone now k e)\<lparr>oscillators := (oscillators (stopTone now k e))(k' := x)\<rparr>"
  using assms by (cases "oscillators e k") (auto simp: stopTone_def fun_upd_twist)

lemma allocate_other_entry:
  assumes "k' \<noteq> k"
  shows "allocate now k f (e\<lparr>oscillators := (oscillators e)(k' := x)\<rparr>) =
         (allocate now k f e)\<lparr>oscillators := (oscillators (allocate now k f e))(k' := x)\<rparr>"
  using assms by (auto simp: allocate_def Let_def fun_upd_twist)

lemma playTone_other_entry:
  assumes "k' \<noteq> k"
  shows "playTone now k f (e\<lparr>oscillators := (oscillators e)(k' := x)\<rparr>) =
         (playTone now k f e)\<lparr>oscillators := (oscillators (playTone now k f e))(k' := x)\<rparr>"
  unfolding playTone_as_release_then_allocate
  by (simp only: stopTone_other_entry[OF assms] allocate_other_entry[OF assms])

text \<open>
  Claim C9. The key string \<open>note @ number_string octave\<close> determines the note and the
  octave, for the twelve note names and every integer octave (the positive ones among
  them). So for two distinct identities, \<open>playTone\<close> and \<open>stopTone\<close> of the one leave the
  map entry of the other as it is, and their effect does not depend on that entry.
\<close>

theorem key_encoding_injective:
  assumes "n1 \<in> set NOTES" and "n2 \<in> set NOTES"
  shows "(tone_key n1 o1 = tone_key n2 o2 \<longleftrightarrow> n1 = n2 \<and> o1 = o2) \<and>
         ((n1, o1) \<noteq> (n2, o2) \<longrightarrow>
            oscillators (playTone now (tone_key n1 o1) f e) (tone_key n2 o2)
              = oscillators e (tone_key n2 o2) \<and>
            oscillators (stopTone now (tone_key n1 o1) e) (tone_key n2 o2)
              = oscillators e (tone_key n2 o2) \<and>
            playTone now (tone_key n1 o1) f (e\<lparr>oscillators := (oscillators e)(tone_key n2 o2 := x)\<rparr>)
              = (playTone now (tone_key n1 o1) f e)
                  \<lparr>oscillators := (oscillators (playTone now (tone_key n1 o1) f e))(tone_key n2 o2 := x)\<rparr> \<and>
            stopTone now (tone_key n1 o1) (e\<lparr>oscillators := (oscillators e)(tone_key n2 o2 := x)\<rparr>)
              = (stopTone now (tone_key n1 o1) e)
                  \<lparr>oscillators := (oscillators (stopTone now (tone_key n1 o1) e))(tone_key n2 o2 := x)\<rparr>)"
proof -
  have inj: "tone_key n1 o1 = tone_key n2 o2 \<longleftrightarrow> n1 = n2 \<and> o1 = o2"
    using tone_key_inj[OF assms] by blast
  have frame: "(n1, o1) \<noteq> (n2, o2) \<longrightarrow>
            oscillators (playTone now (tone_key n1 o1) f e) (tone_key n2 o2)
              = oscillators e (tone_key n2 o2) \<and>
            oscillators (stopTone now (tone_key n1 o1) e) (tone_key n2 o2)
              = oscillators e (tone_key n2 o2) \<and>
            playTone now (tone_key n1 o1) f (e\<lparr>oscillators := (oscillators e)(tone_key n2 o2 := x)\<rparr>)
              = (playTone now (tone_key n1 o1) f e)
                  \<lparr>oscillators := (oscillators (playTone now (tone_key n1 o1) f e))(tone_key n2 o2 := x)\<rparr> \<and>
            stopTone now (tone_key n1 o1) (e\<lparr>oscillators := (oscillators e)(tone_key n2 o2 := x)\<rparr>)
              = (stopTone now (tone_key n1 o1) e)
                  \<lparr>oscillators := (oscillators (stopTone now (tone_key n1 o1) e))(tone_key n2 o2 := x)\<rparr>"
  proof
    assume "(n1, o1) \<noteq> (n2, o2)"
    with inj have ne: "tone_key n2 o2 \<noteq> tone_key n1 o1" by auto
    have a: "oscillators (playTone now (tone_key n1 o1) f e) (tone_key n2 o2) = oscillators e (tone_key n2 o2)"
      using ne by (simp add: oscillators_playTone)
    have b: "oscillators (stopTone now (tone_key n1 o1) e) (tone_key n2 o2) = oscillators e (tone_key n2 o2)"
      using ne by (simp add: oscillators_stopTone)
    from a b playTone_other_entry[OF ne] stopTone_other_entry[OF ne]
    show "oscillators (playTone now (tone_key n1 o1) f e) (tone_key n2 o2)
              = oscillators e (tone_key n2 o2) \<and>
            oscillators (stopTone now (tone_key n1 o1) e) (tone_key n2 o2)
              = oscillators e (tone_key n2 o2) \<and>
            playTone now (tone_key n1 o1) f (e\<lparr>oscillators := (oscillators e)(tone_key n2 o2 := x)\<rparr>)
              = (playTone now (tone_key n1 o1) f e)
                  \<lparr>oscillators := (oscillators (playTone now (tone_key n1 o1) f e))(tone_key n2 o2 := x)\<rparr> \<and>
            stopTone now (tone_key n1 o1) (e\<lparr>oscillators := (oscillators e)(tone_key n2 o2 := x)\<rparr>)
              = (stopTone now (tone_key n1 o1) e)
                  \<lparr>oscillators := (oscillators (stopTone now (tone_key n1 o1) e))(tone_key n2 o2 := x)\<rparr>"
      by blast
  qed
  from inj frame show ?thesis by blast
qed

lemma tone_key_examples:
  "tone_key ''C#'' 4 = ''C#4''" "tone_key ''C'' 4 = ''C4''" "tone_key ''C'' 14 = ''C14''"
  by code_simp+

theorem key_encoding_injective_witness:
  "''C#'' \<in> set NOTES \<and> ''C'' \<in> set NOTES \<and> tone_key ''C#'' 4 = ''C#4'' \<and>
   tone_key ''C#'' 4 \<noteq> tone_key ''C'' 4 \<and>
   oscillators (stopTone 1 (tone_key ''C#'' 4) (playTone 0 ''C4'' 440 (new_AudioEngine Running))) (tone_key ''C'' 4)
     = Some \<lparr>osc = 0, gain = 0\<rparr>"
proof -
  have h1: "''C#'' \<in> set NOTES" and h2: "''C'' \<in> set NOTES" by (simp_all add: NOTES_def)
  have ne: "(''C#'', 4::int) \<noteq> (''C'', 4)" by simp
  note t = key_encoding_injective[OF h1 h2, of 4 4 1 440 "playTone 0 ''C4'' 440 (new_AudioEngine Running)"]
  from t have "tone_key ''C#'' 4 = tone_key ''C'' 4 \<longleftrightarrow> ''C#'' = ''C'' \<and> (4::int) = 4" by (rule conjunct1)
  then have a: "tone_key ''C#'' 4 \<noteq> tone_key ''C'' 4" by simp
  from t ne have "oscillators (stopTone 1 (tone_key ''C#'' 4) (playTone 0 ''C4'' 440 (new_AudioEngine Running))) (tone_key ''C'' 4)
     = oscillators (playTone 0 ''C4'' 440 (new_AudioEngine Running)) (tone_key ''C'' 4)"
    by blast
  also have "\<dots> = Some \<lparr>osc = 0, gain = 0\<rparr>"
    by (simp add: tone_key_examples oscillators_playTone new_AudioEngine_def)
  finally have b: "oscillators (stopTone 1 (tone_key ''C#'' 4) (playTone 0 ''C4'' 440 (new_AudioEngine Running))) (tone_key ''C'' 4)
     = Some \<lparr>osc = 0, gain = 0\<rparr>" .
  from h1 h2 a b tone_key_examples(1) show ?thesis by blast
qed

section \<open>The keyboard\<close>

lemma KEY_MAP_dom:
  "k \<in> dom KEY_MAP \<longleftrightarrow> k \<in> {''a'', ''w'', ''s'', ''e'', ''d'', ''f'', ''t'', ''g'', ''y'', ''h'', ''u'', ''j'', ''k''}"
  by (auto simp: KEY_MAP_def dom_map_of_conv_image_fst)

lemma lower_upper_letters:
  "lower_char (upper_char c) = lower_char c"
proof (cases "(97::nat) \<le> of_char c \<and> of_char c \<le> (122::nat)")
  case True
  define n :: nat where "n = of_char c"
  from True have nb: "97 \<le> n" "n \<le> 122" by (simp_all add: n_def)
  have c: "c = char_of n" by (simp add: n_def)
  have u: "upper_char c = char_of (n - 32)" using True by (simp add: upper_char_def n_def)
  have "(n - 32) mod 256 = n - 32" using nb by simp
  then have v: "of_char (char_of (n - 32)) = n - 32" by simp
  have "65 \<le> n - 32" "n - 32 \<le> 90" using nb by simp_all
  then have "lower_char (char_of (n - 32)) = char_of (n - 32 + 32)"
    unfolding lower_char_def v by simp
  also have "n - 32 + 32 = n" using nb by simp
  finally have f: "lower_char (char_of (n - 32)) = char_of n" .
  have "lower_char (upper_char c) = char_of n" unfolding u by (rule f)
  then have "lower_char (upper_char c) = c" by (simp only: c[symmetric])
  moreover have "lower_char c = c" using nb by (simp add: lower_char_def n_def[symmetric])
  ultimately show ?thesis by simp
next
  case False
  then have "upper_char c = c" unfolding upper_char_def by (simp only: if_False)
  then show ?thesis by simp
qed

lemma mapped_key_lower: "k \<in> dom KEY_MAP \<Longrightarrow> toLowerCase k = k"
  unfolding KEY_MAP_dom by (auto simp: toLowerCase_def lower_char_def)

lemma toLowerCase_toUpperCase: "toLowerCase (toUpperCase s) = toLowerCase s"
  by (simp add: toLowerCase_def toUpperCase_def lower_upper_letters)

lemma keydown_depends_on_lowercase:
  "toLowerCase k1 = toLowerCase k2 \<Longrightarrow>
   keydown now \<lparr>ev_key = k1, ev_repeat = r\<rparr> ui = keydown now \<lparr>ev_key = k2, ev_repeat = r\<rparr> ui"
  by (simp add: keydown_def)

lemma keyup_depends_on_lowercase:
  "toLowerCase k1 = toLowerCase k2 \<Longrightarrow>
   keyup now \<lparr>ev_key = k1, ev_repeat = r\<rparr> ui = keyup now \<lparr>ev_key = k2, ev_repeat = r\<rparr> ui"
  by (simp add: keyup_def)

text \<open>
  Claim C10. Both keyboard handlers look \<open>e.key.toLowerCase()\<close> up in \<open>KEY_MAP\<close>. For
  every key of the table, its uppercase variant is found under the same entry, and the
  key-down and the key-up handler do with it exactly what they do with the lowercase key.
\<close>

theorem keyboard_is_case_insensitive:
  assumes "k \<in> dom KEY_MAP"
  shows "KEY_MAP (toLowerCase (toUpperCase k)) = KEY_MAP k \<and>
         KEY_MAP (toLowerCase k) = KEY_MAP k \<and>
         keydown now \<lparr>ev_key = toUpperCase k, ev_repeat = r\<rparr> ui
           = keydown now \<lparr>ev_key = k, ev_repeat = r\<rparr> ui \<and>
         keyup now \<lparr>ev_key = toUpperCase k, ev_repeat = r\<rparr> ui
           = keyup now \<lparr>ev_key = k, ev_repeat = r\<rparr> ui"
proof -
  have l: "toLowerCase k = k" by (rule mapped_key_lower[OF assms])
  have u: "toLowerCase (toUpperCase k) = toLowerCase k" by (rule toLowerCase_toUpperCase)
  have a: "KEY_MAP (toLowerCase (toUpperCase k)) = KEY_MAP k" by (simp only: u l)
  have b: "KEY_MAP (toLowerCase k) = KEY_MAP k" by (simp only: l)
  from a b keydown_depends_on_lowercase[OF u] keyup_depends_on_lowercase[OF u]
  show ?thesis by blast
qed

lemma example_key_a: "''a'' \<in> dom KEY_MAP" "KEY_MAP ''a'' = Some ''C''"
  by (simp_all add: KEY_MAP_def)

lemma example_upper_a: "toUpperCase ''a'' = ''A''"
  by code_simp

lemma example_press_A:
  "oscillators (engine (keydown 0 \<lparr>ev_key = ''A'', ev_repeat = False\<rparr> (new_PianoUI Running ''Octave: 4''))) ''C4''
     = Some \<lparr>osc = 0, gain = 0\<rparr>"
  by code_simp

theorem keyboard_is_case_insensitive_witness:
  "''a'' \<in> dom KEY_MAP \<and>
   KEY_MAP (toLowerCase ''A'') = Some ''C'' \<and>
   oscillators (engine (keydown 0 \<lparr>ev_key = ''a'', ev_repeat = False\<rparr> (new_PianoUI Running ''Octave: 4''))) ''C4''
     = Some \<lparr>osc = 0, gain = 0\<rparr>"
proof -
  note t = keyboard_is_case_insensitive[OF example_key_a(1), of 0 False "new_PianoUI Running ''Octave: 4''"]
  from t have "KEY_MAP (toLowerCase (toUpperCase ''a'')) = KEY_MAP ''a''" by (rule conjunct1)
  then have a: "KEY_MAP (toLowerCase ''A'') = Some ''C''"
    by (simp only: example_upper_a example_key_a(2))
  from t have "keydown 0 \<lparr>ev_key = toUpperCase ''a'', ev_repeat = False\<rparr> (new_PianoUI Running ''Octave: 4'')
           = keydown 0 \<lparr>ev_key = ''a'', ev_repeat = False\<rparr> (new_PianoUI Running ''Octave: 4'')"
    by (elim conjE)
  then have "keydown 0 \<lparr>ev_key = ''a'', ev_repeat = False\<rparr> (new_PianoUI Running ''Octave: 4'')
           = keydown 0 \<lparr>ev_key = ''A'', ev_repeat = False\<rparr> (new_PianoUI Running ''Octave: 4'')"
    by (simp only: example_upper_a)
  with example_press_A
  have b: "oscillators (engine (keydown 0 \<lparr>ev_key = ''a'', ev_repeat = False\<rparr> (new_PianoUI Running ''Octave: 4''))) ''C4''
     = Some \<lparr>osc = 0, gain = 0\<rparr>" by simp
  from example_key_a(1) a b show ?thesis by blast
qed

lemma keydown_repeat: "ev_repeat ev \<Longrightarrow> keydown now ev ui = ui"
  by (simp add: keydown_def)

lemma dispatch_repeat: "is_repeat e \<Longrightarrow> dispatch e ui = ui"
  by (cases e rule: is_repeat.cases) (simp_all add: keydown_repeat)

lemma run_drops_repeats: "run evs ui = run (filter (\<lambda>e. \<not> is_repeat e) evs) ui"
  unfolding run_def
  by (induction evs arbitrary: ui) (simp_all add: dispatch_repeat)

lemma querySelector_Some:
  assumes "querySelector ui n oc = Some i"
  shows "i < length (piano ui) \<and> data_note (piano ui ! i) = n \<and> data_octave (piano ui ! i) = oc"
proof -
  let ?f = "filter (\<lambda>i. data_note (piano ui ! i) = n \<and> data_octave (piano ui ! i) = oc) [0..<length (piano ui)]"
  from assms obtain rest where "?f = i # rest"
    by (auto simp: querySelector_def split: list.splits)
  then have "i \<in> set ?f" by simp
  then show ?thesis by simp
qed

lemma keydown_triggers:
  assumes "\<not> ev_repeat ev" "KEY_MAP (toLowerCase (ev_key ev)) = Some nb"
    and "key_target ui nb = (n, oc)" "querySelector ui n oc = Some i"
  shows "engine (keydown now ev ui) = playTone now (tone_key n oc) (getFrequency n oc) (resume (engine ui))"
  using assms querySelector_Some[OF assms(4)]
  by (simp add: keydown_def playKey_def Let_def)

text \<open>
  Claim C5. A key-down event flagged as a repeat leaves the whole state as it was: no
  \<open>playTone\<close>, no new node. A sequence of events has the effect of the same sequence
  with the repeated key-downs removed. A key-down that is not a repeat, of a mapped key
  whose target key is rendered, does call \<open>playTone\<close> for that key.
\<close>

theorem key_repeat_never_triggers:
  "(ev_repeat ev \<longrightarrow> keydown now ev ui = ui) \<and>
   run evs ui = run (filter (\<lambda>e. \<not> is_repeat e) evs) ui \<and>
   (\<not> ev_repeat ev \<and> KEY_MAP (toLowerCase (ev_key ev)) = Some nb \<and>
    key_target ui nb = (n, oc) \<and> querySelector ui n oc = Some i \<longrightarrow>
      engine (keydown now ev ui)
        = playTone now (tone_key n oc) (getFrequency n oc) (resume (engine ui)))"
  using keydown_repeat run_drops_repeats keydown_triggers by blast

theorem key_repeat_never_triggers_witness:
  "ev_repeat \<lparr>ev_key = ''a'', ev_repeat = True\<rparr> \<and>
   keydown 1 \<lparr>ev_key = ''a'', ev_repeat = True\<rparr>
       (keydown 0 \<lparr>ev_key = ''a'', ev_repeat = False\<rparr> (new_PianoUI Running ''Octave: 4''))
     = keydown 0 \<lparr>ev_key = ''a'', ev_repeat = False\<rparr> (new_PianoUI Running ''Octave: 4'')"
proof -
  have h: "ev_repeat \<lparr>ev_key = ''a'', ev_repeat = True\<rparr>" by simp
  from key_repeat_never_triggers[of "\<lparr>ev_key = ''a'', ev_repeat = True\<rparr>" 1
        "keydown 0 \<lparr>ev_key = ''a'', ev_repeat = False\<rparr> (new_PianoUI Running ''Octave: 4'')"]
  have "ev_repeat \<lparr>ev_key = ''a'', ev_repeat = True\<rparr> \<longrightarrow>
        keydown 1 \<lparr>ev_key = ''a'', ev_repeat = True\<rparr>
          (keydown 0 \<lparr>ev_key = ''a'', ev_repeat = False\<rparr> (new_PianoUI Running ''Octave: 4''))
        = keydown 0 \<lparr>ev_key = ''a'', ev_repeat = False\<rparr> (new_PianoUI Running ''Octave: 4'')"
    by (rule conjunct1)
  with h show ?thesis by blast
qed

section \<open>The octave controls\<close>

lemma octave_playKey [simp]: "octave (playKey now t ui) = octave ui"
  by (simp add: playKey_def Let_def split: option.splits)

lemma octave_stopKey [simp]: "octave (stopKey now t ui) = octave ui"
  by (simp add: stopKey_def Let_def split: option.splits)

lemma octave_set_touchId [simp]: "octave (set_touchId i t ui) = octave ui"
  by (simp add: set_touchId_def)

lemma octave_fold:
  assumes "\<And>x u. octave (f x u) = octave u"
  shows "octave (fold f xs ui) = octave ui"
  by (induction xs arbitrary: ui) (simp_all add: assms)

lemma octave_mouseup [simp]: "octave (mouseup now ui) = octave ui"
  by (simp add: mouseup_def Let_def octave_fold)

lemma octave_touchstart_one: "octave (touchstart_one now t ui) = octave ui"
  by (simp add: touchstart_one_def split: option.splits)

lemma octave_touchend_key: "octave (touchend_key now t k ui) = octave ui"
  by (simp add: touchend_key_def)

lemma octave_touchend_one: "octave (touchend_one now t ui) = octave ui"
  by (simp add: touchend_one_def octave_fold octave_touchend_key)

lemma octave_keydown [simp]: "octave (keydown now ev ui) = octave ui"
  by (simp add: keydown_def split: option.splits prod.splits)

lemma octave_keyup [simp]: "octave (keyup now ev ui) = octave ui"
  by (simp add: keyup_def split: option.splits prod.splits)

lemma octave_octave_up: "octave (octave_up ui) = (if octave ui < 7 then octave ui + 1 else octave ui)"
  by (simp add: octave_up_def renderPiano_def updateOctaveDisplay_def)

lemma octave_octave_down: "octave (octave_down ui) = (if octave ui > 1 then octave ui - 1 else octave ui)"
  by (simp add: octave_down_def renderPiano_def updateOctaveDisplay_def)

lemma octave_range_dispatch:
  assumes "1 \<le> octave ui \<and> octave ui \<le> 7"
  shows "1 \<le> octave (dispatch e ui) \<and> octave (dispatch e ui) \<le> 7"
proof (cases e)
  case (Pair now ev)
  show ?thesis
    using assms unfolding Pair
    by (cases ev)
       (simp_all add: octave_octave_up octave_octave_down volume_input_def mousedown_def
          mouseover_def mouseout_def touchstart_def touchend_def octave_fold
          octave_touchstart_one octave_touchend_one)
qed

lemma octave_range_run:
  assumes "1 \<le> octave ui \<and> octave ui \<le> 7"
  shows "1 \<le> octave (run evs ui) \<and> octave (run evs ui) \<le> 7"
  using assms unfolding run_def
proof (induction evs arbitrary: ui)
  case Nil
  then show ?case by simp
next
  case (Cons e evs)
  from Cons.prems have "1 \<le> octave (dispatch e ui) \<and> octave (dispatch e ui) \<le> 7"
    by (rule octave_range_dispatch)
  from Cons.IH[OF this] show ?case by simp
qed

lemma octave_new_PianoUI: "octave (new_PianoUI st readout) = 4"
  by (simp add: new_PianoUI_def renderPiano_def)

text \<open>
  Claim C6. In every state that a sequence of events reaches from the constructor, the
  octave is between 1 and 7. At octave 7 the octave-up handler, and at octave 1 the
  octave-down handler, returns the state unchanged: octave, readout and rendered keys.
\<close>

theorem octave_stays_in_range:
  assumes "ui = run evs (new_PianoUI st readout)"
  shows "1 \<le> octave ui \<and> octave ui \<le> 7 \<and>
         (octave ui = 7 \<longrightarrow> octave_up ui = ui \<and> dispatch (now, OctaveUp) ui = ui) \<and>
         (octave ui = 1 \<longrightarrow> octave_down ui = ui \<and> dispatch (now, OctaveDown) ui = ui)"
proof -
  have "1 \<le> octave (new_PianoUI st readout) \<and> octave (new_PianoUI st readout) \<le> 7"
    by (simp add: octave_new_PianoUI)
  then have "1 \<le> octave ui \<and> octave ui \<le> 7"
    unfolding assms by (rule octave_range_run)
  then show ?thesis by (simp add: octave_up_def octave_down_def)
qed

lemma example_three_up:
  "octave (run [(0, OctaveUp), (1, OctaveUp), (2, OctaveUp)] (new_PianoUI Running ''Octave: 4'')) = 7"
  by (simp add: run_def octave_octave_up octave_new_PianoUI)

theorem octave_stays_in_range_witness:
  "octave (run [(0, OctaveUp), (1, OctaveUp), (2, OctaveUp)] (new_PianoUI Running ''Octave: 4'')) = 7 \<and>
   octave_up (run [(0, OctaveUp), (1, OctaveUp), (2, OctaveUp)] (new_PianoUI Running ''Octave: 4''))
     = run [(0, OctaveUp), (1, OctaveUp), (2, OctaveUp)] (new_PianoUI Running ''Octave: 4'')"
proof -
  define ui where "ui = run [(0, OctaveUp), (1, OctaveUp), (2, OctaveUp)] (new_PianoUI Running ''Octave: 4'')"
  have h: "octave ui = 7" unfolding ui_def by (rule example_three_up)
  from octave_stays_in_range[OF ui_def, of 3]
  have "octave ui = 7 \<longrightarrow> octave_up ui = ui \<and> dispatch (3, OctaveUp) ui = ui" by (elim conjE)
  with h have "octave_up ui = ui" by blast
  with h show ?thesis unfolding ui_def by blast
qed

text \<open>
  Claim C7. The octave handlers leave the engine as it is, so the map of live voices is
  the same before and after: no voice is released or triggered. What they change is the
  octave, the readout and the rendered keys, from which later keyboard events resolve
  their target.
\<close>

theorem octave_change_keeps_voices:
  "engine (octave_up ui) = engine ui \<and> engine (octave_down ui) = engine ui \<and>
   oscillators (engine (dispatch (now, OctaveUp) ui)) = oscillators (engine ui) \<and>
   oscillators (engine (dispatch (now, OctaveDown) ui)) = oscillators (engine ui) \<and>
   octave_up ui = (if octave ui < 7
                   then ui\<lparr>octave := octave ui + 1,
                           octave_display := ''Octave: '' @ number_string (octave ui + 1),
                           piano := map (render_key (octave ui + 1)) [0..<13]\<rparr>
                   else ui) \<and>
   octave_down ui = (if octave ui > 1
                     then ui\<lparr>octave := octave ui - 1,
                             octave_display := ''Octave: '' @ number_string (octave ui - 1),
                             piano := map (render_key (octave ui - 1)) [0..<13]\<rparr>
                     else ui)"
  by (simp add: octave_up_def octave_down_def renderPiano_def updateOctaveDisplay_def)

lemma example_press_a_voice:
  "oscillators (engine (keydown 0 \<lparr>ev_key = ''a'', ev_repeat = False\<rparr> (new_PianoUI Running ''Octave: 4''))) ''C4''
     = Some \<lparr>osc = 0, gain = 0\<rparr>"
  by code_simp

theorem octave_change_keeps_voices_witness:
  "oscillators (engine (octave_up (keydown 0 \<lparr>ev_key = ''a'', ev_repeat = False\<rparr>
       (new_PianoUI Running ''Octave: 4'')))) ''C4'' = Some \<lparr>osc = 0, gain = 0\<rparr>"
proof -
  from octave_change_keeps_voices[of "keydown 0 \<lparr>ev_key = ''a'', ev_repeat = False\<rparr> (new_PianoUI Running ''Octave: 4'')" 1]
  have "engine (octave_up (keydown 0 \<lparr>ev_key = ''a'', ev_repeat = False\<rparr> (new_PianoUI Running ''Octave: 4'')))
        = engine (keydown 0 \<lparr>ev_key = ''a'', ev_repeat = False\<rparr> (new_PianoUI Running ''Octave: 4''))"
    by (rule conjunct1)
  with example_press_a_voice show ?thesis by simp
qed

section \<open>The cache worker\<close>

lemma caches_match_Some:
  "caches_match cs request = Some response \<Longrightarrow>
   \<exists>name entries. (name, entries) \<in> set cs \<and> (request, response) \<in> set entries"
proof (induction cs)
  case Nil
  then show ?case by simp
next
  case (Cons c cs)
  obtain name entries where c: "c = (name, entries)" by (cases c)
  show ?case
  proof (cases "map_of entries request")
    case None
    with Cons c show ?thesis by auto
  next
    case (Some r)
    with Cons.prems c have "r = response" by simp
    with Some have "(request, response) \<in> set entries" by (simp add: map_of_SomeD)
    with c show ?thesis by auto
  qed
qed

lemma caches_match_None:
  "caches_match cs request = None \<longleftrightarrow>
   (\<forall>name entries response. (name, entries) \<in> set cs \<longrightarrow> (request, response) \<notin> set entries)"
proof (induction cs)
  case Nil
  then show ?case by simp
next
  case (Cons c cs)
  obtain name entries where c: "c = (name, entries)" by (cases c)
  show ?case
  proof (cases "map_of entries request")
    case None
    then have "\<forall>response. (request, response) \<notin> set entries"
      by (metis map_of_eq_None_iff image_eqI fst_conv)
    with Cons None c show ?thesis by auto
  next
    case (Some r)
    then have "(request, r) \<in> set entries" by (simp add: map_of_SomeD)
    with Some c show ?thesis by auto
  qed
qed

text \<open>
  Claim C8. The fetch listener looks the request up in the caches first. When a stored
  entry matches, the answer is that cached response and nothing is sent to the network;
  the network is asked exactly when no cache holds an entry for the request. The caches
  themselves are not changed by a fetch.
\<close>

theorem cache_first_fetch:
  "(case caches_match (caches w) request of
      Some response \<Rightarrow>
        on_fetch network request w = (Some response, w) \<and>
        (\<exists>name entries. (name, entries) \<in> set (caches w) \<and> (request, response) \<in> set entries)
    | None \<Rightarrow>
        on_fetch network request w = (network request, w\<lparr>sent := sent w @ [request]\<rparr>) \<and>
        (\<forall>name entries response. (name, entries) \<in> set (caches w) \<longrightarrow> (request, response) \<notin> set entries)) \<and>
   (sent (snd (on_fetch network request w)) \<noteq> sent w \<longleftrightarrow> caches_match (caches w) request = None) \<and>
   caches (snd (on_fetch network request w)) = caches w"
proof (cases "caches_match (caches w) request")
  case None
  with caches_match_None[of "caches w" request] show ?thesis
    by (simp add: on_fetch_def fetch_def)
next
  case (Some response)
  with caches_match_Some[OF Some] show ?thesis
    by (simp add: on_fetch_def)
qed

theorem cache_first_fetch_witness:
  "caches_match [(''my-pwa-cache-v1'', [(''/'', ''page''), (''index.html'', ''page'')])] ''index.html'' = Some ''page'' \<and>
   on_fetch (\<lambda>u. Some ''fresh'') ''index.html''
       \<lparr>caches = [(''my-pwa-cache-v1'', [(''/'', ''page''), (''index.html'', ''page'')])], sent = []\<rparr>
     = (Some ''page'', \<lparr>caches = [(''my-pwa-cache-v1'', [(''/'', ''page''), (''index.html'', ''page'')])], sent = []\<rparr>) \<and>
   caches_match [(''my-pwa-cache-v1'', [(''/'', ''page''), (''index.html'', ''page'')])] ''script.js'' = None \<and>
   on_fetch (\<lambda>u. Some ''fresh'') ''script.js''
       \<lparr>caches = [(''my-pwa-cache-v1'', [(''/'', ''page''), (''index.html'', ''page'')])], sent = []\<rparr>
     = (Some ''fresh'', \<lparr>caches = [(''my-pwa-cache-v1'', [(''/'', ''page''), (''index.html'', ''page'')])], sent = [''script.js'']\<rparr>)"
proof -
  define w :: "string worker" where
    "w = \<lparr>caches = [(''my-pwa-cache-v1'', [(''/'', ''page''), (''index.html'', ''page'')])], sent = []\<rparr>"
  have c: "caches w = [(''my-pwa-cache-v1'', [(''/'', ''page''), (''index.html'', ''page'')])]"
    by (simp add: w_def)
  have hit: "caches_match (caches w) ''index.html'' = Some ''page''" by (simp add: c)
  have miss: "caches_match (caches w) ''script.js'' = None" by (simp add: c)
  from cache_first_fetch[where w = w and request = "''index.html''" and network = "\<lambda>u. Some ''fresh''"] hit
  have a: "on_fetch (\<lambda>u. Some ''fresh'') ''index.html'' w = (Some ''page'', w)" by simp
  from cache_first_fetch[where w = w and request = "''script.js''" and network = "\<lambda>u. Some ''fresh''"] miss
  have b: "on_fetch (\<lambda>u. Some ''fresh'') ''script.js'' w = (Some ''fresh'', w\<lparr>sent := sent w @ [''script.js'']\<rparr>)"
    by simp
  from hit miss a b show ?thesis unfolding w_def by simp
qed

end
